theory Spec2Isabelle
  imports Main "HOL-Library.Sublist"
begin

section \<open>The regular expressions of fix_errors.py\<close>

text \<open>
  The script rewrites Rust sources with seven calls of Python's \<^verbatim>\<open>re.sub\<close>. Each
  pattern is a run of literal characters, one capturing group \<^verbatim>\<open>([^c]+)\<close> and a
  second run of literal characters. A pattern is modelled by the list of its atoms:
  \<open>Chr c\<close> is the literal character \<open>c\<close> (the escaped parentheses of the source
  are literal parentheses), \<open>NotPlus c\<close> is the group \<^verbatim>\<open>([^c]+)\<close>: one or more
  characters other than \<open>c\<close>, greedy, captured as group 1. A negated class of
  Python matches every other character, the newline included.

  Texts are \<open>string\<close>s. The patterns are ASCII, so they see a UTF-8 text the same
  way whether it is read as bytes or as code points.
\<close>

datatype atom = Chr char | NotPlus char

type_synonym regex = "atom list"

definition lits :: "string \<Rightarrow> regex" where
  "lits s = map Chr s"

fun first_some :: "'a option list \<Rightarrow> 'a option" where
  "first_some [] = None"
| "first_some (None # xs) = first_some xs"
| "first_some (Some x # xs) = Some x"

text \<open>
  The backtracking matcher of Python's \<^verbatim>\<open>re\<close>, anchored at the start of \<open>s\<close>:
  it returns the text of group 1 and the text left after the match. A greedy group
  first takes the longest run, then gives characters back one at a time until the
  rest of the pattern matches.
\<close>

fun re_match :: "regex \<Rightarrow> string \<Rightarrow> string \<Rightarrow> (string \<times> string) option" where
  "re_match [] s g = Some (g, s)"
| "re_match (Chr c # as) s g =
     (case s of [] \<Rightarrow> None | x # xs \<Rightarrow> if x = c then re_match as xs g else None)"
| "re_match (NotPlus c # as) s g =
     first_some (map (\<lambda>n. re_match as (drop n s) (take n s))
       (rev [1 ..< Suc (length (takeWhile (\<lambda>x. x \<noteq> c) s))]))"

text \<open>
  A replacement template of \<^verbatim>\<open>re.sub\<close>, after Python has read its escapes:
  \<^verbatim>\<open>\n\<close> is a newline, \<^verbatim>\<open>\1\<close> is the text of group 1, everything else is
  literal.
\<close>

datatype titem = Lit string | Newline | Group1

fun expand :: "titem list \<Rightarrow> string \<Rightarrow> string" where
  "expand [] g = []"
| "expand (Lit s # t) g = s @ expand t g"
| "expand (Newline # t) g = CHR 0x0A # expand t g"
| "expand (Group1 # t) g = g @ expand t g"

text \<open>
  \<^verbatim>\<open>re.sub(pattern, repl, string)\<close>: scan from the left; at the leftmost position
  where the pattern matches, emit the expanded template and go on after the match;
  copy every other character. The seven patterns never match the empty string; the
  branch for an empty match (the template, then the next character copied) is what
  Python 3.7 and later do, and keeps the function total.
\<close>

function re_sub :: "regex \<Rightarrow> titem list \<Rightarrow> string \<Rightarrow> string" where
  "re_sub p t s =
     (case re_match p s [] of
        Some (g, rest) \<Rightarrow>
          if length rest < length s then expand t g @ re_sub p t rest
          else (case s of [] \<Rightarrow> expand t g | c # cs \<Rightarrow> expand t g @ c # re_sub p t cs)
      | None \<Rightarrow> (case s of [] \<Rightarrow> [] | c # cs \<Rightarrow> c # re_sub p t cs))"
  by pat_completeness auto
termination
  by (relation "measure (\<lambda>(p, t, s). length s)") auto

section \<open>The seven rules\<close>

datatype tag =
  FileSystem | Process | Validation | ServerNotFound | Internal | Authentication | Authorization

fun pattern :: "tag \<Rightarrow> regex" where
  \<open>pattern FileSystem = lits ''AppError::FileSystem("'' @ [NotPlus (CHR ''"'')] @ lits ''")''\<close>
| \<open>pattern Process = lits ''AppError::Process("'' @ [NotPlus (CHR ''"'')] @ lits ''")''\<close>
| \<open>pattern Validation = lits ''AppError::Validation("'' @ [NotPlus (CHR ''"'')] @ lits ''")''\<close>
| \<open>pattern ServerNotFound = lits ''AppError::ServerNotFound('' @ [NotPlus (CHR '')'')] @ lits '')''\<close>
| \<open>pattern Internal = lits ''AppError::Internal("'' @ [NotPlus (CHR ''"'')] @ lits ''")''\<close>
| \<open>pattern Authentication = lits ''AppError::Authentication("'' @ [NotPlus (CHR ''"'')] @ lits ''")''\<close>
| \<open>pattern Authorization = lits ''AppError::Authorization("'' @ [NotPlus (CHR ''"'')] @ lits ''")''\<close>

fun template :: "tag \<Rightarrow> titem list" where
  \<open>template FileSystem =
     [Lit ''AppError::FileSystemError {'', Newline,
      Lit ''                message: "'', Group1, Lit ''".to_string(),'', Newline,
      Lit ''                path: "unknown".to_string(),'', Newline,
      Lit ''                operation: "unknown".to_string(),'', Newline,
      Lit ''            }'']\<close>
| \<open>template Process =
     [Lit ''AppError::ProcessError {'', Newline,
      Lit ''                message: "'', Group1, Lit ''".to_string(),'', Newline,
      Lit ''                process_id: None,'', Newline,
      Lit ''                operation: "unknown".to_string(),'', Newline,
      Lit ''            }'']\<close>
| \<open>template Validation =
     [Lit ''AppError::ValidationError {'', Newline,
      Lit ''                message: "'', Group1, Lit ''".to_string(),'', Newline,
      Lit ''                field: "unknown".to_string(),'', Newline,
      Lit ''                value: "unknown".to_string(),'', Newline,
      Lit ''            }'']\<close>
| \<open>template ServerNotFound =
     [Lit ''AppError::ServerError {'', Newline,
      Lit ''                message: "Server not found".to_string(),'', Newline,
      Lit ''                server_id: '', Group1, Lit '','', Newline,
      Lit ''                operation: "get".to_string(),'', Newline,
      Lit ''            }'']\<close>
| \<open>template Internal =
     [Lit ''AppError::InternalError {'', Newline,
      Lit ''                message: "'', Group1, Lit ''".to_string(),'', Newline,
      Lit ''                operation: "unknown".to_string(),'', Newline,
      Lit ''            }'']\<close>
| \<open>template Authentication =
     [Lit ''AppError::AuthenticationError {'', Newline,
      Lit ''                message: "'', Group1, Lit ''".to_string(),'', Newline,
      Lit ''                reason: crate::core::error_handler::AuthErrorReason::InternalError,'', Newline,
      Lit ''            }'']\<close>
| \<open>template Authorization =
     [Lit ''AppError::AuthorizationError {'', Newline,
      Lit ''                message: "'', Group1, Lit ''".to_string(),'', Newline,
      Lit ''                required_permission: "unknown".to_string(),'', Newline,
      Lit ''                user_role: "unknown".to_string(),'', Newline,
      Lit ''            }'']\<close>

definition rule_sub :: "tag \<Rightarrow> string \<Rightarrow> string" where
  "rule_sub t content = re_sub (pattern t) (template t) content"

text \<open>
  The body of \<^verbatim>\<open>fix_app_error_usage\<close> between reading and writing the file: the
  seven substitutions, each on the result of the one before.
\<close>

definition fix_text :: "string \<Rightarrow> string" where
  "fix_text content0 =
     (let content1 = rule_sub FileSystem content0;
          content2 = rule_sub Process content1;
          content3 = rule_sub Validation content2;
          content4 = rule_sub ServerNotFound content3;
          content5 = rule_sub Internal content4;
          content6 = rule_sub Authentication content5;
          content7 = rule_sub Authorization content6
      in content7)"

section \<open>Files and the driver\<close>

text \<open>
  A path names nothing, or a file. \<open>Regular s\<close> is a file that opens for reading and
  for writing, with \<open>s\<close> the text \<^verbatim>\<open>f.read()\<close> returns; \<open>ReadOnly s\<close> reads but
  does not open for writing; \<open>Unusable\<close> exists but does not open or decode (a
  directory, a file without permissions, bytes that are not UTF-8). The script
  catches no exception, so a failing \<^verbatim>\<open>open\<close> ends the run: \<open>Inl\<close>.
\<close>

datatype node = Regular string | ReadOnly string | Unusable

record world =
  files :: "string \<Rightarrow> node option"
  stdout :: "string list"

datatype io_error = OpenFailed string

definition print :: "string \<Rightarrow> world \<Rightarrow> world" where
  "print line w = w\<lparr>stdout := stdout w @ [line]\<rparr>"

definition path_exists :: "world \<Rightarrow> string \<Rightarrow> bool" where
  "path_exists w file_path = (files w file_path \<noteq> None)"

definition fix_app_error_usage :: "string \<Rightarrow> world \<Rightarrow> io_error + world" where
  "fix_app_error_usage file_path w =
     (case files w file_path of
        None \<Rightarrow> Inl (OpenFailed file_path)
      | Some Unusable \<Rightarrow> Inl (OpenFailed file_path)
      | Some (ReadOnly content) \<Rightarrow> Inl (OpenFailed file_path)
      | Some (Regular content) \<Rightarrow>
          Inr (w\<lparr>files := (files w)(file_path \<mapsto> Regular (fix_text content))\<rparr>))"

fun main_loop :: "string list \<Rightarrow> world \<Rightarrow> io_error + world" where
  "main_loop [] w = Inr w"
| "main_loop (file_path # rest) w =
     (if path_exists w file_path then
        (case fix_app_error_usage file_path (print (''Fixing '' @ file_path @ ''...'') w) of
           Inl e \<Rightarrow> Inl e
         | Inr w' \<Rightarrow> main_loop rest w')
      else main_loop rest (print (''File not found: '' @ file_path) w))"

definition files_to_fix :: "string list" where
  "files_to_fix =
     [''hostd/src/core/file_manager.rs'',
      ''hostd/src/core/security.rs'',
      ''hostd/src/core/monitoring.rs'',
      ''hostd/src/core/websocket.rs'']"

definition main :: "world \<Rightarrow> io_error + world" where
  "main w = main_loop files_to_fix w"

section \<open>Vocabulary of the specification\<close>

text \<open>
  The rules in the order \<^verbatim>\<open>fix_app_error_usage\<close> applies them.
\<close>

definition all_tags :: "tag list" where
  "all_tags = [FileSystem, Process, Validation, ServerNotFound, Internal, Authentication, Authorization]"

text \<open>
  The call head of a rule: the text of its pattern up to and including the opening
  parenthesis. Every match of a rule starts with its head.
\<close>

fun head :: "tag \<Rightarrow> string" where
  "head FileSystem = ''AppError::FileSystem(''"
| "head Process = ''AppError::Process(''"
| "head Validation = ''AppError::Validation(''"
| "head ServerNotFound = ''AppError::ServerNotFound(''"
| "head Internal = ''AppError::Internal(''"
| "head Authentication = ''AppError::Authentication(''"
| "head Authorization = ''AppError::Authorization(''"

text \<open>
  The character the group of a rule excludes (the double quote, 0x22, for the six
  string rules; the closing parenthesis, 0x29, for \<open>ServerNotFound\<close>), the literal
  text before the group and the literal text after it.
\<close>

definition stopc :: "tag \<Rightarrow> char" where
  "stopc t = (if t = ServerNotFound then CHR 0x29 else CHR 0x22)"

definition opener :: "tag \<Rightarrow> string" where
  "opener t = (if t = ServerNotFound then head t else head t @ [CHR 0x22])"

definition closer :: "tag \<Rightarrow> string" where
  "closer t = (if t = ServerNotFound then [CHR 0x29] else [CHR 0x22, CHR 0x29])"

text \<open>
  The old form of a call with argument \<open>g\<close>, and the new form the rule writes for it.
\<close>

definition old_form :: "tag \<Rightarrow> string \<Rightarrow> string" where
  "old_form t g = opener t @ g @ closer t"

definition new_form :: "tag \<Rightarrow> string \<Rightarrow> string" where
  "new_form t g = expand (template t) g"

text \<open>The field of the new form that carries the captured text.\<close>

definition captured_field :: "tag \<Rightarrow> string \<Rightarrow> string" where
  \<open>captured_field t g =
     (if t = ServerNotFound then ''server_id: '' @ g @ '',''
      else ''message: "'' @ g @ ''".to_string(),'')\<close>

text \<open>The number of positions of \<open>s\<close> at which \<open>p\<close> occurs.\<close>

definition occurrences :: "string \<Rightarrow> string \<Rightarrow> nat" where
  "occurrences p s = length (filter (\<lambda>k. prefix p (drop k s)) [0 ..< Suc (length s)])"

text \<open>
  A text is free of call heads when none of the seven heads occurs in it. Such a text
  holds no old-form call and no beginning of one.
\<close>

definition hfree :: "string \<Rightarrow> bool" where
  "hfree s = list_all (\<lambda>t. \<not> sublist (head t) s) all_tags"

text \<open>Some rule matches at some position of the text.\<close>

definition has_old_form :: "string \<Rightarrow> bool" where
  "has_old_form s =
     list_ex (\<lambda>t. list_ex (\<lambda>k. re_match (pattern t) (drop k s) [] \<noteq> None) [0 ..< length s]) all_tags"

text \<open>
  A text with several old-form calls of one rule: the leading text \<open>s0\<close>, then for each
  pair \<open>(g, s)\<close> the call with argument \<open>g\<close> followed by the text \<open>s\<close>; and the same
  text with every call in its new form.
\<close>

definition old_text :: "tag \<Rightarrow> string \<Rightarrow> (string \<times> string) list \<Rightarrow> string" where
  "old_text t s0 occs = s0 @ concat (map (\<lambda>(g, s). old_form t g @ s) occs)"

definition new_text :: "tag \<Rightarrow> string \<Rightarrow> (string \<times> string) list \<Rightarrow> string" where
  "new_text t s0 occs = s0 @ concat (map (\<lambda>(g, s). new_form t g @ s) occs)"


text \<open>
  Clean texts. A form is a call in its old form, a call in its new form, or a string
  call that its rule cannot match (\<open>Stuck t run mid\<close> is the head, a double quote,
  \<open>run\<close>, a double quote, \<open>mid\<close> and a closing parenthesis, where \<open>run\<close> is empty or
  \<open>mid\<close> does not start with a closing parenthesis). A clean text is a leading
  text and a list of forms, each followed by a text, where the texts between the
  forms and the texts inside them are free of call heads.
\<close>

datatype form = Old tag string | New tag string | Stuck tag string string

fun form_text :: "form \<Rightarrow> string" where
  "form_text (Old t g) = old_form t g"
| "form_text (New t g) = new_form t g"
| "form_text (Stuck t run mid) = head t @ CHR 0x22 # run @ CHR 0x22 # mid @ [CHR 0x29]"

fun form_ok :: "form \<Rightarrow> bool" where
  "form_ok (Old t g) = (g \<noteq> [] \<and> stopc t \<notin> set g \<and> hfree g)"
| "form_ok (New t g) = hfree g"
| "form_ok (Stuck t run mid) =
     (t \<noteq> ServerNotFound \<and> CHR 0x22 \<notin> set run \<and> hfree run \<and> hfree mid \<and>
      (run = [] \<or> (mid \<noteq> [] \<and> hd mid \<noteq> CHR 0x29)))"

fun is_new :: "form \<Rightarrow> bool" where
  "is_new (New t g) = True"
| "is_new (Old t g) = False"
| "is_new (Stuck t run mid) = False"

fun convert :: "tag \<Rightarrow> form \<Rightarrow> form" where
  "convert t' (Old t g) = (if t = t' then New t g else Old t g)"
| "convert t' (New t g) = New t g"
| "convert t' (Stuck t run mid) = Stuck t run mid"

fun to_new :: "form \<Rightarrow> form" where
  "to_new (Old t g) = New t g"
| "to_new (New t g) = New t g"
| "to_new (Stuck t run mid) = Stuck t run mid"

definition items_text :: "(form \<times> string) list \<Rightarrow> string" where
  "items_text items = concat (map (\<lambda>(f, s). form_text f @ s) items)"

definition doc_text :: "string \<Rightarrow> (form \<times> string) list \<Rightarrow> string" where
  "doc_text s0 items = s0 @ items_text items"

definition doc_ok :: "string \<Rightarrow> (form \<times> string) list \<Rightarrow> bool" where
  "doc_ok s0 items = (hfree s0 \<and> list_all (\<lambda>(f, s). form_ok f \<and> hfree s) items)"

definition map_forms :: "(form \<Rightarrow> form) \<Rightarrow> (form \<times> string) list \<Rightarrow> (form \<times> string) list" where
  "map_forms h items = map (\<lambda>(f, s). (h f, s)) items"

text \<open>
  What the driver is expected to do with one path: the line it prints, and the file
  system after it. A path is usable when it names nothing or a regular file.
\<close>

definition notice :: "(string \<Rightarrow> node option) \<Rightarrow> string \<Rightarrow> string" where
  "notice fs file_path =
     (if fs file_path = None then ''File not found: '' @ file_path
      else ''Fixing '' @ file_path @ ''...'')"

definition fix_file :: "string \<Rightarrow> (string \<Rightarrow> node option) \<Rightarrow> (string \<Rightarrow> node option)" where
  "fix_file file_path fs =
     (case fs file_path of
        Some (Regular content) \<Rightarrow> fs(file_path \<mapsto> Regular (fix_text content))
      | _ \<Rightarrow> fs)"

definition usable :: "(string \<Rightarrow> node option) \<Rightarrow> string \<Rightarrow> bool" where
  "usable fs file_path =
     (case fs file_path of None \<Rightarrow> True | Some (Regular content) \<Rightarrow> True | _ \<Rightarrow> False)"

text \<open>Devices of the proofs: characters that stand in no call head, and texts in
  which no \<open>A\<close> is followed by \<open>p\<close>.\<close>

definition sepchar :: "char \<Rightarrow> bool" where
  "sepchar c = (c \<in> set [CHR 0x22, CHR 0x29, CHR 0x2C, CHR 0x20, CHR 0x7D, CHR 0x5C, CHR 0x0A])"

fun no_Ap :: "string \<Rightarrow> bool" where
  "no_Ap [] = True"
| "no_Ap [c] = (c \<noteq> CHR ''A'')"
| "no_Ap (c # d # r) = ((c = CHR ''A'' \<longrightarrow> d \<noteq> CHR ''p'') \<and> no_Ap (d # r))"

section \<open>The matcher on the seven patterns\<close>

lemma first_some_None: "(\<And>x. x \<in> set xs \<Longrightarrow> f x = None) \<Longrightarrow> first_some (map f xs) = None"
  by (induction xs) auto

lemma re_match_lits:
  "re_match (lits u @ as) s g = (if prefix u s then re_match as (drop (length u) s) g else None)"
proof (induction u arbitrary: s)
  case Nil
  then show ?case by (simp add: lits_def)
next
  case (Cons a u)
  then show ?case by (cases s) (auto simp: lits_def)
qed

lemma re_match_lits_only:
  "re_match (lits u) s g = (if prefix u s then Some (g, drop (length u) s) else None)"
  using re_match_lits [of u "[]" s g] by simp

lemma re_match_group:
  "re_match (NotPlus c # lits (c # z)) s g =
     (if takeWhile (\<lambda>x. x \<noteq> c) s \<noteq> [] \<and> prefix (c # z) (dropWhile (\<lambda>x. x \<noteq> c) s)
      then Some (takeWhile (\<lambda>x. x \<noteq> c) s, drop (Suc (length z)) (dropWhile (\<lambda>x. x \<noteq> c) s))
      else None)"
proof -
  define m where "m = length (takeWhile (\<lambda>x. x \<noteq> c) s)"
  define f where "f = (\<lambda>n. re_match (lits (c # z)) (drop n s) (take n s))"
  have short: "f n = None" if "n < m" for n
  proof -
    have "s ! n \<noteq> c"
      using that nth_mem [of n "takeWhile (\<lambda>x. x \<noteq> c) s"] set_takeWhileD [of "s ! n" "\<lambda>x. x \<noteq> c" s]
      by (simp add: m_def takeWhile_nth)
    moreover have "n < length s"
      using that length_takeWhile_le [of "\<lambda>x. x \<noteq> c" s] by (simp add: m_def)
    ultimately have "\<not> prefix (c # z) (drop n s)"
      by (auto simp: prefix_def dest!: arg_cong [where f = hd] simp: hd_drop_conv_nth)
    then show ?thesis by (simp add: f_def re_match_lits_only)
  qed
  have tk: "take m s = takeWhile (\<lambda>x. x \<noteq> c) s" and dr: "drop m s = dropWhile (\<lambda>x. x \<noteq> c) s"
    by (simp_all add: m_def takeWhile_eq_take [symmetric] dropWhile_eq_drop [symmetric])
  have unfold: "re_match (NotPlus c # lits (c # z)) s g = first_some (map f (rev [1 ..< Suc m]))"
    by (simp add: f_def m_def)
  show ?thesis
  proof (cases m)
    case 0
    then show ?thesis using unfold by (simp add: m_def)
  next
    case (Suc k)
    have rest: "first_some (map f (rev [1 ..< m])) = None"
      by (rule first_some_None) (simp add: short)
    have "rev [1 ..< Suc m] = m # rev [1 ..< m]" using Suc by simp
    then have "first_some (map f (rev [1 ..< Suc m])) = (case f m of None \<Rightarrow> None | Some r \<Rightarrow> Some r)"
      using rest by (cases "f m") simp_all
    moreover have "f m = (if prefix (c # z) (dropWhile (\<lambda>x. x \<noteq> c) s)
        then Some (takeWhile (\<lambda>x. x \<noteq> c) s, drop (Suc (length z)) (dropWhile (\<lambda>x. x \<noteq> c) s)) else None)"
      by (simp add: f_def tk dr re_match_lits_only)
    moreover have "takeWhile (\<lambda>x. x \<noteq> c) s \<noteq> []" using Suc by (auto simp: m_def)
    ultimately show ?thesis using unfold by simp
  qed
qed

lemma closer_stopc: "closer t = stopc t # tl (closer t)"
  by (simp add: closer_def stopc_def)

lemma pattern_shape: "pattern t = lits (opener t) @ NotPlus (stopc t) # lits (closer t)"
  by (cases t) (simp_all add: opener_def stopc_def closer_def lits_def)

lemma match_rule:
  "re_match (pattern t) s [] =
     (if prefix (opener t) s \<and> takeWhile (\<lambda>x. x \<noteq> stopc t) (drop (length (opener t)) s) \<noteq> []
         \<and> prefix (closer t) (dropWhile (\<lambda>x. x \<noteq> stopc t) (drop (length (opener t)) s))
      then Some (takeWhile (\<lambda>x. x \<noteq> stopc t) (drop (length (opener t)) s),
                 drop (length (closer t)) (dropWhile (\<lambda>x. x \<noteq> stopc t) (drop (length (opener t)) s)))
      else None)"
proof -
  have "re_match (NotPlus (stopc t) # lits (closer t)) r [] =
     (if takeWhile (\<lambda>x. x \<noteq> stopc t) r \<noteq> [] \<and> prefix (closer t) (dropWhile (\<lambda>x. x \<noteq> stopc t) r)
      then Some (takeWhile (\<lambda>x. x \<noteq> stopc t) r, drop (length (closer t)) (dropWhile (\<lambda>x. x \<noteq> stopc t) r))
      else None)" for r
    using re_match_group [of "stopc t" "tl (closer t)" r "[]"] closer_stopc [of t]
    by (simp add: closer_def)
  moreover have "re_match (pattern t) s [] =
     (if prefix (opener t) s
      then re_match (NotPlus (stopc t) # lits (closer t)) (drop (length (opener t)) s) [] else None)"
    by (simp only: pattern_shape re_match_lits)
  ultimately show ?thesis
    by (simp del: re_match.simps)
qed

section \<open>Scanning: matches and skipped text\<close>

declare re_sub.simps [simp del]

lemma all_tags_complete: "t \<in> set all_tags"
  by (cases t) (simp_all add: all_tags_def)

lemma hfree_iff: "hfree s \<longleftrightarrow> (\<forall>t. \<not> sublist (head t) s)"
  using all_tags_complete by (auto simp: hfree_def list_all_iff)

lemma opener_head: "prefix (head t) (opener t)"
  by (simp add: opener_def)

lemma head_nonempty: "head t \<noteq> []"
  by (cases t) simp_all

lemma no_head_no_match: "\<not> prefix (head t) s \<Longrightarrow> re_match (pattern t) s [] = None"
proof -
  assume a: "\<not> prefix (head t) s"
  have "\<not> prefix (opener t) s"
  proof
    assume "prefix (opener t) s"
    then obtain zs where "s = opener t @ zs" unfolding prefix_def by blast
    moreover obtain q where "opener t = head t @ q" unfolding opener_def by (cases "t = ServerNotFound") simp_all
    ultimately have "s = head t @ (q @ zs)" by simp
    then have "prefix (head t) s" unfolding prefix_def by blast
    with a show False by simp
  qed
  then show ?thesis by (simp add: match_rule)
qed

lemma rule_sub_Nil: "rule_sub t [] = []"
proof -
  have "re_match (pattern t) [] [] = None"
    by (rule no_head_no_match) (simp add: head_nonempty)
  then show ?thesis by (simp add: rule_sub_def re_sub.simps [of _ _ "[]"])
qed

lemma prefix_drop_sublist: "prefix h (drop k s) \<Longrightarrow> sublist h s"
proof -
  assume "prefix h (drop k s)"
  then obtain zs where "drop k s = h @ zs" by (auto simp: prefix_def)
  then have "s = take k s @ h @ zs" by (metis append_take_drop_id)
  then show ?thesis unfolding sublist_def by blast
qed

lemma rule_sub_skip:
  "re_match (pattern t) (c # cs) [] = None \<Longrightarrow> rule_sub t (c # cs) = c # rule_sub t cs"
  by (simp add: rule_sub_def re_sub.simps [of _ _ "c # cs"])

lemma match_old_form:
  assumes "g \<noteq> []" "stopc t \<notin> set g"
  shows "re_match (pattern t) (opener t @ g @ closer t @ rest) [] = Some (g, rest)"
proof -
  obtain z where z: "closer t = stopc t # z"
    using closer_stopc [of t] by blast
  have g: "\<And>x. x \<in> set g \<Longrightarrow> x \<noteq> stopc t"
    using assms(2) by auto
  have "takeWhile (\<lambda>x. x \<noteq> stopc t) (g @ closer t @ rest) = g"
    using g by (simp add: takeWhile_append2 z)
  moreover have "dropWhile (\<lambda>x. x \<noteq> stopc t) (g @ closer t @ rest) = closer t @ rest"
    using g by (simp add: dropWhile_append2 z)
  ultimately show ?thesis using assms(1) by (simp add: match_rule)
qed

lemma rule_sub_match:
  assumes "g \<noteq> []" "stopc t \<notin> set g"
  shows "rule_sub t (opener t @ g @ closer t @ rest) = new_form t g @ rule_sub t rest"
proof -
  have "length rest < length (opener t @ g @ closer t @ rest)"
    using assms by simp
  then show ?thesis
    using match_old_form [OF assms, of rest]
    by (simp add: rule_sub_def new_form_def re_sub.simps [of _ _ "opener t @ g @ closer t @ rest"])
qed

lemma rule_sub_skip_seg:
  "(\<And>k. k < length u \<Longrightarrow> \<not> prefix (head t) (drop k u @ Y)) \<Longrightarrow> rule_sub t (u @ Y) = u @ rule_sub t Y"
proof (induction u)
  case Nil
  then show ?case by simp
next
  case (Cons c u)
  have "\<not> prefix (head t) (c # u @ Y)" using Cons.prems [of 0] by simp
  then have "re_match (pattern t) (c # u @ Y) [] = None"
    by (rule no_head_no_match)
  moreover have "rule_sub t (u @ Y) = u @ rule_sub t Y"
  proof (rule Cons.IH)
    fix k assume "k < length u"
    then show "\<not> prefix (head t) (drop k u @ Y)" using Cons.prems [of "Suc k"] by simp
  qed
  ultimately show ?case by (simp add: rule_sub_skip)
qed

lemma sepchar_head: "sepchar c \<Longrightarrow> c \<notin> set (head t)"
  by (cases t) (auto simp: sepchar_def)

lemma prefix_sep:
  assumes "prefix h (u @ c # W)" "c \<notin> set h"
  shows "prefix h u"
proof -
  from assms(1) have "prefix h u \<or> (\<exists>us. h = u @ us \<and> prefix us (c # W))"
    by (simp add: prefix_append)
  then show ?thesis
  proof
    assume "prefix h u" then show ?thesis .
  next
    assume "\<exists>us. h = u @ us \<and> prefix us (c # W)"
    then obtain us where us: "h = u @ us" "prefix us (c # W)" by blast
    show ?thesis
    proof (cases us)
      case Nil
      with us show ?thesis by simp
    next
      case (Cons a us')
      with us have "a = c" by simp
      with Cons us assms(2) show ?thesis by simp
    qed
  qed
qed

lemma no_Ap_split: "no_Ap v \<Longrightarrow> v = x @ CHR ''A'' # w \<Longrightarrow> w \<noteq> [] \<and> hd w \<noteq> CHR ''p''"
proof (induction v arbitrary: x rule: no_Ap.induct)
  case 1
  then show ?case by simp
next
  case (2 c)
  then show ?case by (cases x) auto
next
  case (3 c d r)
  show ?case
  proof (cases x)
    case Nil
    with 3 show ?thesis by auto
  next
    case (Cons a x')
    from "3.prems"(1) have "no_Ap (d # r)" by simp
    moreover from "3.prems"(2) Cons have "d # r = x' @ CHR ''A'' # w" by simp
    ultimately show ?thesis by (rule "3.IH")
  qed
qed

lemma head_no_Ap: "no_Ap (tl (head t))"
  by (cases t) simp_all

lemma prefix_Ap:
  assumes "prefix (head t) (u @ Y)" "u \<noteq> []" "Y = [] \<or> prefix ''Ap'' Y"
  shows "prefix (head t) u"
proof -
  from assms(1) have "prefix (head t) u \<or> (\<exists>us. head t = u @ us \<and> prefix us Y)"
    by (simp add: prefix_append)
  then show ?thesis
  proof
    assume "prefix (head t) u" then show ?thesis .
  next
    assume "\<exists>us. head t = u @ us \<and> prefix us Y"
    then obtain us where us: "head t = u @ us" "prefix us Y" by blast
    show ?thesis
    proof (cases us)
      case Nil
      with us show ?thesis by simp
    next
      case (Cons b us')
      with us have "Y \<noteq> []" by auto
      with assms(3) obtain Y' where Y: "Y = CHR ''A'' # CHR ''p'' # Y'"
        by (auto simp: prefix_def)
      from us Cons Y have b: "b = CHR ''A''" and us': "prefix us' (CHR ''p'' # Y')" by simp_all
      from assms(2) obtain a u' where u: "u = a # u'" by (cases u) auto
      have "tl (head t) = u' @ CHR ''A'' # us'" using us Cons b u by simp
      from no_Ap_split [OF head_no_Ap this] us' show ?thesis
        by (cases us') auto
    qed
  qed
qed

lemma skip_block_sep:
  assumes "\<not> sublist (head t) s" "sepchar c"
  shows "rule_sub t (s @ c # W) = s @ c # rule_sub t W"
proof -
  have "rule_sub t (s @ c # W) = s @ rule_sub t (c # W)"
  proof (rule rule_sub_skip_seg)
    fix k assume "k < length s"
    show "\<not> prefix (head t) (drop k s @ c # W)"
    proof
      assume "prefix (head t) (drop k s @ c # W)"
      moreover have "c \<notin> set (head t)" by (rule sepchar_head [OF assms(2)])
      ultimately have "prefix (head t) (drop k s)"
        by (rule prefix_sep)
      then have "sublist (head t) s"
        by (rule prefix_drop_sublist)
      with assms(1) show False by simp
    qed
  qed
  moreover have "\<not> prefix (head t) (c # W)"
  proof
    assume p: "prefix (head t) (c # W)"
    obtain a h' where h: "head t = a # h'"
      using head_nonempty [of t] by (cases "head t") simp_all
    with p have "a = c" by simp
    with h have "c \<in> set (head t)" by simp
    with sepchar_head [OF assms(2), of t] show False by simp
  qed
  then have "rule_sub t (c # W) = c # rule_sub t W"
    by (simp add: rule_sub_skip no_head_no_match)
  ultimately show ?thesis by simp
qed

lemma skip_block_Ap:
  assumes "\<not> sublist (head t) s" "Y = [] \<or> prefix ''Ap'' Y"
  shows "rule_sub t (s @ Y) = s @ rule_sub t Y"
proof (rule rule_sub_skip_seg)
  fix k assume k: "k < length s"
  show "\<not> prefix (head t) (drop k s @ Y)"
  proof
    assume "prefix (head t) (drop k s @ Y)"
    then have "prefix (head t) (drop k s)"
      using prefix_Ap [of t "drop k s" Y] k assms(2) by simp
    then have "sublist (head t) s"
      by (rule prefix_drop_sublist)
    with assms(1) show False by simp
  qed
qed

lemma skip1: "c \<noteq> CHR ''A'' \<Longrightarrow> rule_sub t (c # W) = c # rule_sub t W"
proof -
  assume "c \<noteq> CHR ''A''"
  then have "\<not> prefix (head t) (c # W)" by (cases t) auto
  then show ?thesis by (simp add: rule_sub_skip no_head_no_match)
qed

lemma skip2: "d \<noteq> CHR ''p'' \<Longrightarrow> rule_sub t (CHR ''A'' # d # W) = CHR ''A'' # rule_sub t (d # W)"
proof -
  assume "d \<noteq> CHR ''p''"
  then have "\<not> prefix (head t) (CHR ''A'' # d # W)" by (cases t) auto
  then show ?thesis by (simp add: rule_sub_skip no_head_no_match)
qed

lemma skip_nohead: "\<not> prefix (head t) (c # W) \<Longrightarrow> rule_sub t (c # W) = c # rule_sub t W"
  by (simp add: rule_sub_skip no_head_no_match)

section \<open>The rules on clean texts\<close>

lemma hfreeD: "hfree g \<Longrightarrow> \<not> sublist (head t) g"
  by (simp add: hfree_iff)

lemma skipAp:
  "\<not> prefix (head t) (CHR ''A'' # CHR ''p'' # W) \<Longrightarrow>
   rule_sub t (CHR ''A'' # CHR ''p'' # W) = CHR ''A'' # rule_sub t (CHR ''p'' # W)"
  by (rule skip_nohead)

lemma new_start: "\<not> prefix (head t') (new_form t g @ Y)"
  by (cases t; cases t'; simp add: new_form_def)

lemma old_start: "t' \<noteq> t \<Longrightarrow> \<not> prefix (head t') (old_form t g @ Y)"
  by (cases t; cases t'; simp add: old_form_def opener_def)

lemma head_start: "t' \<noteq> t \<Longrightarrow> \<not> prefix (head t') (head t @ Y)"
  by (cases t; cases t'; simp)

lemma step_new:
  assumes "hfree g"
  shows "rule_sub t' (new_form t g @ Y) = new_form t g @ rule_sub t' Y"
  using hfreeD [OF assms, of t'] new_start [of t' t g Y]
  by (cases t; simp add: new_form_def skip1 skip2 skipAp skip_block_sep sepchar_def)

lemma step_old_other:
  assumes "hfree g" "t' \<noteq> t"
  shows "rule_sub t' (old_form t g @ Y) = old_form t g @ rule_sub t' Y"
  using hfreeD [OF assms(1), of t'] old_start [OF assms(2), of g Y]
  by (cases t; simp add: old_form_def opener_def closer_def skip1 skip2 skipAp skip_block_sep sepchar_def)

lemma stuck_no_match:
  assumes "t \<noteq> ServerNotFound" "CHR 0x22 \<notin> set run"
    "run = [] \<or> (mid \<noteq> [] \<and> hd mid \<noteq> CHR 0x29)"
  shows "re_match (pattern t) (head t @ CHR 0x22 # run @ CHR 0x22 # mid @ CHR 0x29 # Y) [] = None"
proof -
  let ?W = "run @ CHR 0x22 # mid @ CHR 0x29 # Y"
  have op: "opener t = head t @ [CHR 0x22]" and st: "stopc t = CHR 0x22"
    and cl: "closer t = [CHR 0x22, CHR 0x29]"
    using assms(1) by (simp_all add: opener_def stopc_def closer_def)
  have run: "\<And>x. x \<in> set run \<Longrightarrow> x \<noteq> CHR 0x22" using assms(2) by auto
  have tk: "takeWhile (\<lambda>x. x \<noteq> CHR 0x22) ?W = run"
    using run by (simp add: takeWhile_append2)
  have dr: "dropWhile (\<lambda>x. x \<noteq> CHR 0x22) ?W = CHR 0x22 # mid @ CHR 0x29 # Y"
    using run by (simp add: dropWhile_append2)
  have "run = [] \<or> \<not> prefix [CHR 0x22, CHR 0x29] (CHR 0x22 # mid @ CHR 0x29 # Y)"
    using assms(3) by (cases mid) auto
  then show ?thesis
    using tk dr by (auto simp: match_rule op st cl)
qed

lemma step_stuck:
  assumes "form_ok (Stuck t run mid)"
  shows "rule_sub t' (form_text (Stuck t run mid) @ Y) = form_text (Stuck t run mid) @ rule_sub t' Y"
proof -
  let ?F = "head t @ CHR 0x22 # run @ CHR 0x22 # mid @ CHR 0x29 # Y"
  have "re_match (pattern t') ?F [] = None"
  proof (cases "t' = t")
    case True
    then show ?thesis using assms stuck_no_match [of t run mid Y] by simp
  next
    case False
    then show ?thesis by (simp add: no_head_no_match head_start)
  qed
  moreover obtain p where p: "head t = CHR ''A'' # p" by (cases t) simp_all
  ultimately have first: "rule_sub t' ?F = CHR ''A'' # rule_sub t' (tl ?F)"
    by (simp add: rule_sub_skip)
  have rest: "rule_sub t' (tl (head t) @ CHR 0x22 # run @ CHR 0x22 # mid @ CHR 0x29 # Y)
      = tl (head t) @ CHR 0x22 # run @ CHR 0x22 # mid @ CHR 0x29 # rule_sub t' Y"
    using assms hfreeD [of run t'] hfreeD [of mid t']
    by (cases t; simp add: skip1 skip2 skip_block_sep sepchar_def)
  show ?thesis using first rest p by simp
qed

lemma step_form:
  assumes "form_ok f"
  shows "rule_sub t' (form_text f @ Y) = form_text (convert t' f) @ rule_sub t' Y"
proof (cases f)
  case (Old t g)
  show ?thesis
  proof (cases "t = t'")
    case True
    with Old assms show ?thesis
      using rule_sub_match [of g t Y] by (simp add: old_form_def)
  next
    case False
    with Old assms show ?thesis by (simp add: step_old_other)
  qed
next
  case (New t g)
  with assms show ?thesis by (simp add: step_new)
next
  case (Stuck t run mid)
  with assms show ?thesis using step_stuck [of t run mid t' Y] by simp
qed

lemma form_ok_convert: "form_ok f \<Longrightarrow> form_ok (convert t' f)"
  by (cases f) auto

lemma form_starts_Ap: "prefix ''Ap'' (form_text f @ Y)"
proof (cases f)
  case (Old t g)
  then show ?thesis by (cases t) (simp_all add: old_form_def opener_def)
next
  case (New t g)
  then show ?thesis by (cases t) (simp_all add: new_form_def)
next
  case (Stuck t run mid)
  then show ?thesis by (cases t) simp_all
qed

lemma items_text_Nil: "items_text [] = []"
  by (simp add: items_text_def)

lemma items_text_Cons: "items_text ((f, s) # items) = form_text f @ s @ items_text items"
  by (simp add: items_text_def)

lemma items_text_barrier: "items_text items = [] \<or> prefix ''Ap'' (items_text items)"
proof (cases items)
  case Nil
  then show ?thesis by (simp add: items_text_Nil)
next
  case (Cons a items')
  obtain f s where "a = (f, s)" by (cases a)
  with Cons show ?thesis
    using form_starts_Ap [of f "s @ items_text items'"] by (simp add: items_text_Cons)
qed

lemma rule_sub_items:
  "list_all (\<lambda>(f, s). form_ok f \<and> hfree s) items \<Longrightarrow>
   rule_sub t' (items_text items) = items_text (map_forms (convert t') items)"
proof (induction items)
  case Nil
  then show ?case by (simp add: items_text_Nil map_forms_def rule_sub_Nil)
next
  case (Cons a items)
  obtain f s where a: "a = (f, s)" by (cases a)
  from Cons.prems a have ok: "form_ok f" "hfree s"
    and rest: "list_all (\<lambda>(f, s). form_ok f \<and> hfree s) items" by simp_all
  have "rule_sub t' (items_text (a # items)) = form_text (convert t' f) @ rule_sub t' (s @ items_text items)"
    using step_form [OF ok(1)] a by (simp add: items_text_Cons)
  also have "rule_sub t' (s @ items_text items) = s @ rule_sub t' (items_text items)"
    using hfreeD [OF ok(2)] items_text_barrier by (rule skip_block_Ap)
  also have "rule_sub t' (items_text items) = items_text (map_forms (convert t') items)"
    using rest by (rule Cons.IH)
  finally show ?case using a by (simp add: items_text_Cons map_forms_def)
qed

lemma rule_sub_doc:
  assumes "doc_ok s0 items"
  shows "rule_sub t' (doc_text s0 items) = doc_text s0 (map_forms (convert t') items)"
proof -
  from assms have s0: "hfree s0" and items: "list_all (\<lambda>(f, s). form_ok f \<and> hfree s) items"
    by (simp_all add: doc_ok_def)
  have "rule_sub t' (s0 @ items_text items) = s0 @ rule_sub t' (items_text items)"
    using hfreeD [OF s0] items_text_barrier by (rule skip_block_Ap)
  then show ?thesis using rule_sub_items [OF items] by (simp add: doc_text_def)
qed

lemma doc_ok_convert: "doc_ok s0 items \<Longrightarrow> doc_ok s0 (map_forms (convert t') items)"
  by (induction items) (auto simp: doc_ok_def map_forms_def form_ok_convert)

section \<open>The whole transform on clean texts\<close>

lemma fix_text_fold: "fix_text s = fold rule_sub all_tags s"
  by (simp add: fix_text_def all_tags_def)

lemma map_forms_comp: "map_forms h2 (map_forms h1 items) = map_forms (h2 \<circ> h1) items"
  by (induction items) (auto simp: map_forms_def)

lemma map_forms_id: "map_forms (\<lambda>f. f) items = items"
  by (induction items) (auto simp: map_forms_def)

lemma fold_rule_sub_doc:
  "doc_ok s0 items \<Longrightarrow>
   fold rule_sub ts (doc_text s0 items) = doc_text s0 (map_forms (fold convert ts) items)"
proof (induction ts arbitrary: items)
  case Nil
  then show ?case by (simp add: map_forms_id)
next
  case (Cons t ts)
  have "fold rule_sub (t # ts) (doc_text s0 items) = fold rule_sub ts (doc_text s0 (map_forms (convert t) items))"
    using rule_sub_doc [OF Cons.prems] by simp
  also have "\<dots> = doc_text s0 (map_forms (fold convert ts) (map_forms (convert t) items))"
    using doc_ok_convert [OF Cons.prems] by (rule Cons.IH)
  finally show ?case by (simp add: map_forms_comp comp_def)
qed

lemma fold_convert_Old:
  "fold convert ts (Old t g) = (if t \<in> set ts then New t g else Old t g)"
proof (induction ts)
  case Nil
  then show ?case by simp
next
  case (Cons a ts)
  have new: "fold convert ts (New t g) = New t g" for ts
    by (induction ts) simp_all
  show ?case using Cons new by auto
qed

lemma fold_convert_all:
  assumes "set ts = set all_tags"
  shows "fold convert ts f = to_new f"
proof (cases f)
  case (Old t g)
  then show ?thesis using assms all_tags_complete [of t] by (simp add: fold_convert_Old)
next
  case (New t g)
  have "fold convert ts (New t g) = New t g" by (induction ts) simp_all
  with New show ?thesis by simp
next
  case (Stuck t run mid)
  have "fold convert ts (Stuck t run mid) = Stuck t run mid" by (induction ts) simp_all
  with Stuck show ?thesis by simp
qed

lemma fold_rule_sub_all:
  assumes "doc_ok s0 items" "set ts = set all_tags"
  shows "fold rule_sub ts (doc_text s0 items) = doc_text s0 (map_forms to_new items)"
proof -
  have "fold convert ts = to_new" using fold_convert_all [OF assms(2)] by (rule ext)
  then show ?thesis using fold_rule_sub_doc [OF assms(1), of ts] by simp
qed

lemma fix_text_doc:
  "doc_ok s0 items \<Longrightarrow> fix_text (doc_text s0 items) = doc_text s0 (map_forms to_new items)"
  by (simp add: fix_text_fold fold_rule_sub_all)

lemma form_ok_to_new: "form_ok f \<Longrightarrow> form_ok (to_new f)"
  by (cases f) auto

lemma doc_ok_to_new: "doc_ok s0 items \<Longrightarrow> doc_ok s0 (map_forms to_new items)"
  by (induction items) (auto simp: doc_ok_def map_forms_def form_ok_to_new)

lemma to_new_idem: "to_new (to_new f) = to_new f"
  by (cases f) simp_all

lemma to_new_is_new: "is_new f \<Longrightarrow> to_new f = f"
  by (cases f) simp_all

lemma map_forms_to_new_new: "list_all (\<lambda>(f, s). is_new f) items \<Longrightarrow> map_forms to_new items = items"
  by (induction items) (auto simp: map_forms_def to_new_is_new)

lemma hfree_Nil: "hfree []"
  by (simp add: hfree_iff head_nonempty)

section \<open>Evaluating the rules on a given text\<close>

lemma rule_sub_at_opener:
  "rule_sub t (opener t @ W) =
     (if takeWhile (\<lambda>x. x \<noteq> stopc t) W \<noteq> [] \<and> prefix (closer t) (dropWhile (\<lambda>x. x \<noteq> stopc t) W)
      then new_form t (takeWhile (\<lambda>x. x \<noteq> stopc t) W)
             @ rule_sub t (drop (length (closer t)) (dropWhile (\<lambda>x. x \<noteq> stopc t) W))
      else hd (opener t) # rule_sub t (tl (opener t) @ W))"
proof -
  let ?run = "takeWhile (\<lambda>x. x \<noteq> stopc t) W" and ?rest = "dropWhile (\<lambda>x. x \<noteq> stopc t) W"
  obtain a q where oq: "opener t = a # q"
    using head_nonempty [of t] by (cases "opener t") (auto simp: opener_def split: if_splits)
  show ?thesis
  proof (cases "?run \<noteq> [] \<and> prefix (closer t) ?rest")
    case True
    then obtain rest' where r: "?rest = closer t @ rest'" by (auto simp: prefix_def)
    have W: "W = ?run @ closer t @ rest'" using r takeWhile_dropWhile_id [of "\<lambda>x. x \<noteq> stopc t" W] by simp
    have "stopc t \<notin> set ?run" using set_takeWhileD [of "stopc t" "\<lambda>x. x \<noteq> stopc t" W] by auto
    with True have "rule_sub t (opener t @ ?run @ closer t @ rest') = new_form t ?run @ rule_sub t rest'"
      by (intro rule_sub_match) simp_all
    then show ?thesis using True W r by simp
  next
    case False
    then have "re_match (pattern t) (opener t @ W) [] = None" by (auto simp: match_rule)
    then have "rule_sub t (opener t @ W) = hd (opener t) # rule_sub t (tl (opener t) @ W)"
      using oq by (simp add: rule_sub_skip)
    then show ?thesis unfolding if_not_P [OF False] .
  qed
qed

lemmas at_opener =
  rule_sub_at_opener [of FileSystem, simplified opener_def stopc_def closer_def, simplified]
  rule_sub_at_opener [of Process, simplified opener_def stopc_def closer_def, simplified]
  rule_sub_at_opener [of Validation, simplified opener_def stopc_def closer_def, simplified]
  rule_sub_at_opener [of ServerNotFound, simplified opener_def stopc_def closer_def, simplified]
  rule_sub_at_opener [of Internal, simplified opener_def stopc_def closer_def, simplified]
  rule_sub_at_opener [of Authentication, simplified opener_def stopc_def closer_def, simplified]
  rule_sub_at_opener [of Authorization, simplified opener_def stopc_def closer_def, simplified]

lemma hfree_no_A: "CHR ''A'' \<notin> set s \<Longrightarrow> hfree s"
proof -
  assume a: "CHR ''A'' \<notin> set s"
  have "\<not> sublist (head t) s" for t
  proof
    assume "sublist (head t) s"
    then have "set (head t) \<subseteq> set s" by (rule set_mono_sublist)
    moreover have "CHR ''A'' \<in> set (head t)" by (cases t) simp_all
    ultimately show False using a by auto
  qed
  then show ?thesis by (simp add: hfree_iff)
qed

section \<open>Idempotence (claim C3)\<close>

text \<open>
  Claim C3 says that the transform is idempotent on every text: applied to its own
  output it changes nothing. The code does not do that for every text (see the
  input after the theorem: a call of \<open>ServerNotFound\<close> whose argument is another
  such call). What holds is idempotence on clean texts: for a text made of
  call-head-free pieces, old-form calls, new-form structures and unmatched string
  calls, whose arguments are free of call heads, a second run changes nothing; and
  when every form of such a text is already in its new form, the first run changes
  nothing either.
\<close>

theorem clean_text_idempotent:
  assumes "doc_ok s0 items"
  shows "fix_text (fix_text (doc_text s0 items)) = fix_text (doc_text s0 items) \<and>
         (list_all (\<lambda>(f, s). is_new f) items \<longrightarrow> fix_text (doc_text s0 items) = doc_text s0 items)"
proof -
  have once: "fix_text (doc_text s0 items) = doc_text s0 (map_forms to_new items)"
    using assms by (rule fix_text_doc)
  have "fix_text (doc_text s0 (map_forms to_new items)) = doc_text s0 (map_forms to_new (map_forms to_new items))"
    using doc_ok_to_new [OF assms] by (rule fix_text_doc)
  also have "map_forms to_new (map_forms to_new items) = map_forms to_new items"
    by (simp add: map_forms_comp comp_def to_new_idem)
  finally have "fix_text (fix_text (doc_text s0 items)) = fix_text (doc_text s0 items)"
    using once by simp
  moreover have "list_all (\<lambda>(f, s). is_new f) items \<longrightarrow> fix_text (doc_text s0 items) = doc_text s0 items"
    using once by (simp add: map_forms_to_new_new)
  ultimately show ?thesis by simp
qed

theorem clean_text_idempotent_witness:
  \<open>doc_ok ''let e = '' [(Old Internal ''boom'', ''; let f = ''), (New FileSystem ''gone'', '';'')]
   \<and> fix_text (fix_text (doc_text ''let e = '' [(Old Internal ''boom'', ''; let f = ''), (New FileSystem ''gone'', '';'')]))
       = fix_text (doc_text ''let e = '' [(Old Internal ''boom'', ''; let f = ''), (New FileSystem ''gone'', '';'')])
   \<and> doc_ok ''x = '' [(New ServerNotFound ''id'', '';'')]
   \<and> list_all (\<lambda>(f, s). is_new f) [(New ServerNotFound ''id'', '';'')]
   \<and> fix_text (doc_text ''x = '' [(New ServerNotFound ''id'', '';'')]) = doc_text ''x = '' [(New ServerNotFound ''id'', '';'')]\<close>
proof -
  have ok1: "doc_ok ''let e = '' [(Old Internal ''boom'', ''; let f = ''), (New FileSystem ''gone'', '';'')]"
    by (simp add: doc_ok_def hfree_no_A stopc_def)
  have ok2: "doc_ok ''x = '' [(New ServerNotFound ''id'', '';'')]"
    by (simp add: doc_ok_def hfree_no_A)
  have new2: "list_all (\<lambda>(f, s). is_new f) [(New ServerNotFound ''id'', '';'')]"
    by simp
  show ?thesis
    using clean_text_idempotent [OF ok1] clean_text_idempotent [OF ok2] ok1 ok2 new2 by blast
qed

text \<open>
  The input \<^verbatim>\<open>AppError::ServerNotFound(AppError::ServerNotFound(x))\<close>: the first run
  rewrites the outer call, whose captured text ends at the first closing parenthesis
  and so holds the head of the inner call; the second run matches from that head to
  the closing parenthesis of \<^verbatim>\<open>to_string()\<close> in the structure the first run wrote.
\<close>

theorem idempotence_counterexample:
  \<open>fix_text ''AppError::ServerNotFound(AppError::ServerNotFound(x))'' =
        (''AppError::ServerError {'' @ [CHR 0x0A] @
         ''                message: "Server not found".to_string(),'' @ [CHR 0x0A] @
         ''                server_id: AppError::ServerNotFound(x,'' @ [CHR 0x0A] @
         ''                operation: "get".to_string(),'' @ [CHR 0x0A] @
         ''            })'')
   \<and> fix_text
        (''AppError::ServerError {'' @ [CHR 0x0A] @
         ''                message: "Server not found".to_string(),'' @ [CHR 0x0A] @
         ''                server_id: AppError::ServerNotFound(x,'' @ [CHR 0x0A] @
         ''                operation: "get".to_string(),'' @ [CHR 0x0A] @
         ''            })'') =
        (''AppError::ServerError {'' @ [CHR 0x0A] @
         ''                message: "Server not found".to_string(),'' @ [CHR 0x0A] @
         ''                server_id: AppError::ServerError {'' @ [CHR 0x0A] @
         ''                message: "Server not found".to_string(),'' @ [CHR 0x0A] @
         ''                server_id: x,'' @ [CHR 0x0A] @
         ''                operation: "get".to_string(,'' @ [CHR 0x0A] @
         ''                operation: "get".to_string(),'' @ [CHR 0x0A] @
         ''            },'' @ [CHR 0x0A] @
         ''            })'')
   \<and> fix_text (fix_text ''AppError::ServerNotFound(AppError::ServerNotFound(x))'')
       \<noteq> fix_text ''AppError::ServerNotFound(AppError::ServerNotFound(x))''\<close>
proof -
  have e1: \<open>fix_text ''AppError::ServerNotFound(AppError::ServerNotFound(x))'' =
        (''AppError::ServerError {'' @ [CHR 0x0A] @
         ''                message: "Server not found".to_string(),'' @ [CHR 0x0A] @
         ''                server_id: AppError::ServerNotFound(x,'' @ [CHR 0x0A] @
         ''                operation: "get".to_string(),'' @ [CHR 0x0A] @
         ''            })'')\<close>
    by (simp add: fix_text_def skip1 skip2 skipAp rule_sub_Nil at_opener new_form_def)
  have e2: \<open>fix_text
        (''AppError::ServerError {'' @ [CHR 0x0A] @
         ''                message: "Server not found".to_string(),'' @ [CHR 0x0A] @
         ''                server_id: AppError::ServerNotFound(x,'' @ [CHR 0x0A] @
         ''                operation: "get".to_string(),'' @ [CHR 0x0A] @
         ''            })'') =
        (''AppError::ServerError {'' @ [CHR 0x0A] @
         ''                message: "Server not found".to_string(),'' @ [CHR 0x0A] @
         ''                server_id: AppError::ServerError {'' @ [CHR 0x0A] @
         ''                message: "Server not found".to_string(),'' @ [CHR 0x0A] @
         ''                server_id: x,'' @ [CHR 0x0A] @
         ''                operation: "get".to_string(,'' @ [CHR 0x0A] @
         ''                operation: "get".to_string(),'' @ [CHR 0x0A] @
         ''            },'' @ [CHR 0x0A] @
         ''            })'')\<close>
    by (simp add: fix_text_def skip1 skip2 skipAp rule_sub_Nil at_opener new_form_def)
  have ne: \<open>(''AppError::ServerError {'' @ [CHR 0x0A] @
         ''                message: "Server not found".to_string(),'' @ [CHR 0x0A] @
         ''                server_id: AppError::ServerError {'' @ [CHR 0x0A] @
         ''                message: "Server not found".to_string(),'' @ [CHR 0x0A] @
         ''                server_id: x,'' @ [CHR 0x0A] @
         ''                operation: "get".to_string(,'' @ [CHR 0x0A] @
         ''                operation: "get".to_string(),'' @ [CHR 0x0A] @
         ''            },'' @ [CHR 0x0A] @
         ''            })'') \<noteq>
        (''AppError::ServerError {'' @ [CHR 0x0A] @
         ''                message: "Server not found".to_string(),'' @ [CHR 0x0A] @
         ''                server_id: AppError::ServerNotFound(x,'' @ [CHR 0x0A] @
         ''                operation: "get".to_string(),'' @ [CHR 0x0A] @
         ''            })'')\<close>
    by simp
  have \<open>fix_text (fix_text ''AppError::ServerNotFound(AppError::ServerNotFound(x))'')
       \<noteq> fix_text ''AppError::ServerNotFound(AppError::ServerNotFound(x))''\<close>
    unfolding e1 e2 by (rule ne)
  with e1 e2 show ?thesis by blast
qed

section \<open>Order of the rules (claim C5)\<close>

text \<open>
  Claim C5 says that the seven substitutions give the same output in every order, on
  every text. The code does not do that for every text (see the input after the
  theorem). What holds is order independence on clean texts: for a clean text, the
  rules applied in any permutation of the seven give the output of the documented
  order.
\<close>

theorem clean_text_order_independent:
  assumes "doc_ok s0 items" "distinct ts" "set ts = set all_tags"
  shows "fold rule_sub ts (doc_text s0 items) = fix_text (doc_text s0 items)"
  using assms by (simp add: fold_rule_sub_all fix_text_doc)

theorem clean_text_order_independent_witness:
  \<open>doc_ok ''let e = '' [(Old Internal ''boom'', ''; let f = ''), (Old ServerNotFound ''id'', '';'')]
   \<and> distinct [Authorization, Authentication, Internal, ServerNotFound, Validation, Process, FileSystem]
   \<and> set [Authorization, Authentication, Internal, ServerNotFound, Validation, Process, FileSystem] = set all_tags
   \<and> fold rule_sub [Authorization, Authentication, Internal, ServerNotFound, Validation, Process, FileSystem]
         (doc_text ''let e = '' [(Old Internal ''boom'', ''; let f = ''), (Old ServerNotFound ''id'', '';'')])
       = fix_text (doc_text ''let e = '' [(Old Internal ''boom'', ''; let f = ''), (Old ServerNotFound ''id'', '';'')])\<close>
proof -
  have ok: "doc_ok ''let e = '' [(Old Internal ''boom'', ''; let f = ''), (Old ServerNotFound ''id'', '';'')]"
    by (simp add: doc_ok_def hfree_no_A stopc_def)
  have d: "distinct [Authorization, Authentication, Internal, ServerNotFound, Validation, Process, FileSystem]"
    by simp
  have s: "set [Authorization, Authentication, Internal, ServerNotFound, Validation, Process, FileSystem] = set all_tags"
    by (auto simp: all_tags_def)
  show ?thesis
    using clean_text_order_independent [OF ok d s] ok d s by blast
qed

text \<open>
  The input \<^verbatim>\<open>AppError::FileSystem("AppError::ServerNotFound(x)")\<close>: in the documented
  order the \<open>FileSystem\<close> rule rewrites the outer call and the \<open>ServerNotFound\<close> rule
  then rewrites the call inside the message; with the \<open>ServerNotFound\<close> rule first,
  the structure it writes puts a double quote into the argument of the outer call,
  which the \<open>FileSystem\<close> rule then no longer matches.
\<close>

theorem order_counterexample:
  \<open>distinct [ServerNotFound, FileSystem, Process, Validation, Internal, Authentication, Authorization]
   \<and> set [ServerNotFound, FileSystem, Process, Validation, Internal, Authentication, Authorization] = set all_tags
   \<and> fix_text ''AppError::FileSystem("AppError::ServerNotFound(x)")'' =
        (''AppError::FileSystemError {'' @ [CHR 0x0A] @
         ''                message: "AppError::ServerError {'' @ [CHR 0x0A] @
         ''                message: "Server not found".to_string(),'' @ [CHR 0x0A] @
         ''                server_id: x,'' @ [CHR 0x0A] @
         ''                operation: "get".to_string(),'' @ [CHR 0x0A] @
         ''            }".to_string(),'' @ [CHR 0x0A] @
         ''                path: "unknown".to_string(),'' @ [CHR 0x0A] @
         ''                operation: "unknown".to_string(),'' @ [CHR 0x0A] @
         ''            }'')
   \<and> fold rule_sub [ServerNotFound, FileSystem, Process, Validation, Internal, Authentication, Authorization]
         ''AppError::FileSystem("AppError::ServerNotFound(x)")'' =
        (''AppError::FileSystem("AppError::ServerError {'' @ [CHR 0x0A] @
         ''                message: "Server not found".to_string(),'' @ [CHR 0x0A] @
         ''                server_id: x,'' @ [CHR 0x0A] @
         ''                operation: "get".to_string(),'' @ [CHR 0x0A] @
         ''            }")'')
   \<and> fold rule_sub [ServerNotFound, FileSystem, Process, Validation, Internal, Authentication, Authorization]
         ''AppError::FileSystem("AppError::ServerNotFound(x)")''
       \<noteq> fix_text ''AppError::FileSystem("AppError::ServerNotFound(x)")''\<close>
proof -
  have d: "distinct [ServerNotFound, FileSystem, Process, Validation, Internal, Authentication, Authorization]"
    by simp
  have s: "set [ServerNotFound, FileSystem, Process, Validation, Internal, Authentication, Authorization] = set all_tags"
    by (auto simp: all_tags_def)
  have e1: \<open>fix_text ''AppError::FileSystem("AppError::ServerNotFound(x)")'' =
        (''AppError::FileSystemError {'' @ [CHR 0x0A] @
         ''                message: "AppError::ServerError {'' @ [CHR 0x0A] @
         ''                message: "Server not found".to_string(),'' @ [CHR 0x0A] @
         ''                server_id: x,'' @ [CHR 0x0A] @
         ''                operation: "get".to_string(),'' @ [CHR 0x0A] @
         ''            }".to_string(),'' @ [CHR 0x0A] @
         ''                path: "unknown".to_string(),'' @ [CHR 0x0A] @
         ''                operation: "unknown".to_string(),'' @ [CHR 0x0A] @
         ''            }'')\<close>
    by (simp add: fix_text_def skip1 skip2 skipAp rule_sub_Nil at_opener new_form_def)
  have e2: \<open>fold rule_sub [ServerNotFound, FileSystem, Process, Validation, Internal, Authentication, Authorization]
         ''AppError::FileSystem("AppError::ServerNotFound(x)")'' =
        (''AppError::FileSystem("AppError::ServerError {'' @ [CHR 0x0A] @
         ''                message: "Server not found".to_string(),'' @ [CHR 0x0A] @
         ''                server_id: x,'' @ [CHR 0x0A] @
         ''                operation: "get".to_string(),'' @ [CHR 0x0A] @
         ''            }")'')\<close>
    by (simp add: fix_text_def skip1 skip2 skipAp rule_sub_Nil at_opener new_form_def)
  have ne: \<open>(''AppError::FileSystem("AppError::ServerError {'' @ [CHR 0x0A] @
         ''                message: "Server not found".to_string(),'' @ [CHR 0x0A] @
         ''                server_id: x,'' @ [CHR 0x0A] @
         ''                operation: "get".to_string(),'' @ [CHR 0x0A] @
         ''            }")'') \<noteq>
        (''AppError::FileSystemError {'' @ [CHR 0x0A] @
         ''                message: "AppError::ServerError {'' @ [CHR 0x0A] @
         ''                message: "Server not found".to_string(),'' @ [CHR 0x0A] @
         ''                server_id: x,'' @ [CHR 0x0A] @
         ''                operation: "get".to_string(),'' @ [CHR 0x0A] @
         ''            }".to_string(),'' @ [CHR 0x0A] @
         ''                path: "unknown".to_string(),'' @ [CHR 0x0A] @
         ''                operation: "unknown".to_string(),'' @ [CHR 0x0A] @
         ''            }'')\<close>
    by simp
  have \<open>fold rule_sub [ServerNotFound, FileSystem, Process, Validation, Internal, Authentication, Authorization]
         ''AppError::FileSystem("AppError::ServerNotFound(x)")''
       \<noteq> fix_text ''AppError::FileSystem("AppError::ServerNotFound(x)")''\<close>
    unfolding e1 e2 by (rule ne)
  with d s e1 e2 show ?thesis by blast
qed

section \<open>A single occurrence (claim C1)\<close>

lemma occurrences_self: "p \<noteq> [] \<Longrightarrow> occurrences p p = 1"
proof -
  assume p: "p \<noteq> []"
  have later: "\<not> prefix p (drop k p)" if "0 < k" for k
  proof
    assume "prefix p (drop k p)"
    then have "length p \<le> length (drop k p)" by (rule prefix_length_le)
    with that p show False by (cases p) auto
  qed
  have "[0 ..< Suc (length p)] = 0 # [1 ..< Suc (length p)]"
    by (simp add: upt_rec)
  moreover have "filter (\<lambda>k. prefix p (drop k p)) [1 ..< Suc (length p)] = []"
    using later by (auto simp: filter_empty_conv)
  ultimately show ?thesis by (simp add: occurrences_def)
qed

lemma new_form_nonempty: "new_form t g \<noteq> []"
  by (cases t) (simp_all add: new_form_def)

lemma captured_field_in_new_form: "sublist (captured_field t g) (new_form t g)"
  by (cases t) (simp_all add: captured_field_def new_form_def sublist_Cons_right)

lemma doc_single: "doc_text [] [(f, [])] = form_text f"
  by (simp add: doc_text_def items_text_def)

text \<open>
  Claim C1: for each of the seven rules, the transform applied to a minimal text with
  exactly one occurrence of the rule's old form (the call alone, its argument \<open>g\<close>
  non-empty, without the character the group excludes and free of call heads, so
  that nothing else in the text looks like an old-form call: the rule's pattern
  matches the whole text and captures \<open>g\<close>) gives exactly the rule's new form: the new form occurs exactly once in the output, and the captured
  text stands unchanged in its \<^verbatim>\<open>message\<close> field (for \<open>ServerNotFound\<close>, its
  \<^verbatim>\<open>server_id\<close> field). The witness is the scenario of the specification,
  \<^verbatim>\<open>AppError::Internal("boom")\<close>, with the output written out.
\<close>

theorem single_occurrence:
  assumes "g \<noteq> []" "stopc t \<notin> set g" "hfree g"
  shows "re_match (pattern t) (old_form t g) [] = Some (g, [])
       \<and> fix_text (old_form t g) = new_form t g
       \<and> occurrences (new_form t g) (fix_text (old_form t g)) = 1
       \<and> sublist (captured_field t g) (new_form t g)"
proof -
  have m: "re_match (pattern t) (old_form t g) [] = Some (g, [])"
    using match_old_form [OF assms(1,2), of "[]"] by (simp add: old_form_def)
  have "doc_ok [] [(Old t g, [])]"
    using assms by (simp add: doc_ok_def hfree_Nil)
  then have "fix_text (doc_text [] [(Old t g, [])]) = doc_text [] (map_forms to_new [(Old t g, [])])"
    by (rule fix_text_doc)
  then have eq: "fix_text (old_form t g) = new_form t g"
    by (simp add: doc_single map_forms_def)
  then show ?thesis
    using m by (simp add: occurrences_self new_form_nonempty captured_field_in_new_form)
qed

theorem single_occurrence_witness:
  \<open>''boom'' \<noteq> [] \<and> stopc Internal \<notin> set ''boom'' \<and> hfree ''boom''
   \<and> old_form Internal ''boom'' = ''AppError::Internal("boom")''
   \<and> new_form Internal ''boom'' =
       ''AppError::InternalError {'' @ [CHR 0x0A] @
       ''                message: "boom".to_string(),'' @ [CHR 0x0A] @
       ''                operation: "unknown".to_string(),'' @ [CHR 0x0A] @
       ''            }''
   \<and> captured_field Internal ''boom'' = ''message: "boom".to_string(),''
   \<and> re_match (pattern Internal) (old_form Internal ''boom'') [] = Some (''boom'', [])
   \<and> fix_text (old_form Internal ''boom'') = new_form Internal ''boom''
   \<and> occurrences (new_form Internal ''boom'') (fix_text (old_form Internal ''boom'')) = 1
   \<and> sublist (captured_field Internal ''boom'') (new_form Internal ''boom'')\<close>
proof -
  have a: "''boom'' \<noteq> []" and b: "stopc Internal \<notin> set ''boom''" and c: "hfree ''boom''"
    by (simp_all add: stopc_def hfree_no_A)
  have e1: \<open>old_form Internal ''boom'' = ''AppError::Internal("boom")''\<close>
    by (simp add: old_form_def opener_def closer_def)
  have e2: \<open>new_form Internal ''boom'' =
       ''AppError::InternalError {'' @ [CHR 0x0A] @
       ''                message: "boom".to_string(),'' @ [CHR 0x0A] @
       ''                operation: "unknown".to_string(),'' @ [CHR 0x0A] @
       ''            }''\<close>
    by (simp add: new_form_def)
  have e3: \<open>captured_field Internal ''boom'' = ''message: "boom".to_string(),''\<close>
    by (simp add: captured_field_def)
  show ?thesis
    using single_occurrence [OF a b c] a b c e1 e2 e3 by blast
qed

section \<open>Several occurrences of one rule (claims C2 and C4)\<close>

lemma old_form_Ap: "prefix ''Ap'' (old_form t g @ Y)"
  by (cases t) (simp_all add: old_form_def opener_def)

lemma occs_barrier:
  "concat (map (\<lambda>(g, s). old_form t g @ s) occs) = [] \<or>
   prefix ''Ap'' (concat (map (\<lambda>(g, s). old_form t g @ s) occs))"
proof (cases occs)
  case Nil
  then show ?thesis by simp
next
  case (Cons a occs')
  obtain g s where "a = (g, s)" by (cases a)
  with Cons show ?thesis
    using old_form_Ap [of t g "s @ concat (map (\<lambda>(g, s). old_form t g @ s) occs')"] by simp
qed

lemma rule_sub_occs:
  "list_all (\<lambda>(g, s). g \<noteq> [] \<and> stopc t \<notin> set g \<and> \<not> sublist (head t) s) occs \<Longrightarrow>
   rule_sub t (concat (map (\<lambda>(g, s). old_form t g @ s) occs))
     = concat (map (\<lambda>(g, s). new_form t g @ s) occs)"
proof (induction occs)
  case Nil
  then show ?case by (simp add: rule_sub_Nil)
next
  case (Cons a occs)
  obtain g s where a: "a = (g, s)" by (cases a)
  let ?R = "concat (map (\<lambda>(g, s). old_form t g @ s) occs)"
  from Cons.prems a have g: "g \<noteq> []" "stopc t \<notin> set g" and s: "\<not> sublist (head t) s"
    and rest: "list_all (\<lambda>(g, s). g \<noteq> [] \<and> stopc t \<notin> set g \<and> \<not> sublist (head t) s) occs"
    by simp_all
  have "rule_sub t (old_form t g @ s @ ?R) = new_form t g @ rule_sub t (s @ ?R)"
    using rule_sub_match [OF g, of "s @ ?R"] by (simp add: old_form_def)
  also have "rule_sub t (s @ ?R) = s @ rule_sub t ?R"
    using s occs_barrier by (rule skip_block_Ap)
  also have "rule_sub t ?R = concat (map (\<lambda>(g, s). new_form t g @ s) occs)"
    using rest by (rule Cons.IH)
  finally show ?case using a by simp
qed

lemma rule_sub_old_text:
  assumes "\<not> sublist (head t) s0"
    "list_all (\<lambda>(g, s). g \<noteq> [] \<and> stopc t \<notin> set g \<and> \<not> sublist (head t) s) occs"
  shows "rule_sub t (old_text t s0 occs) = new_text t s0 occs"
proof -
  have "rule_sub t (s0 @ concat (map (\<lambda>(g, s). old_form t g @ s) occs))
      = s0 @ rule_sub t (concat (map (\<lambda>(g, s). old_form t g @ s) occs))"
    using assms(1) occs_barrier by (rule skip_block_Ap)
  then show ?thesis
    using rule_sub_occs [OF assms(2)] by (simp add: old_text_def new_text_def)
qed

lemma old_text_doc: "doc_text s0 (map (\<lambda>(g, s). (Old t g, s)) occs) = old_text t s0 occs"
  by (induction occs) (auto simp: doc_text_def items_text_def old_text_def)

lemma new_text_doc: "doc_text s0 (map (\<lambda>(g, s). (New t g, s)) occs) = new_text t s0 occs"
  by (induction occs) (auto simp: doc_text_def items_text_def new_text_def)

lemma to_new_occs:
  "map_forms to_new (map (\<lambda>(g, s). (Old t g, s)) occs) = map (\<lambda>(g, s). (New t g, s)) occs"
  by (induction occs) (auto simp: map_forms_def)

lemma doc_ok_occs:
  "hfree s0 \<Longrightarrow> list_all (\<lambda>(g, s). g \<noteq> [] \<and> stopc t \<notin> set g \<and> hfree g \<and> hfree s) occs \<Longrightarrow>
   doc_ok s0 (map (\<lambda>(g, s). (Old t g, s)) occs)"
  by (induction occs) (auto simp: doc_ok_def)

lemma occs_weaken:
  "list_all (\<lambda>(g, s). g \<noteq> [] \<and> stopc t \<notin> set g \<and> hfree g \<and> hfree s) occs \<Longrightarrow>
   list_all (\<lambda>(g, s). g \<noteq> [] \<and> stopc t \<notin> set g \<and> \<not> sublist (head t) s) occs"
  by (induction occs) (auto simp: hfreeD)

text \<open>
  Claim C2: a text with N occurrences of the old form of one rule, one after the
  other (the leading text \<open>s0\<close>, then each call with argument \<open>g\<close> followed by a text
  \<open>s\<close>), and nothing else that looks like an old-form call (the texts around the
  calls and the arguments are free of call heads): the rule's own substitution
  converts all N occurrences, in their order, and leaves every character outside
  them unchanged; and so does the whole transform.
\<close>

theorem all_occurrences:
  assumes "hfree s0"
    "list_all (\<lambda>(g, s). g \<noteq> [] \<and> stopc t \<notin> set g \<and> hfree g \<and> hfree s) occs"
  shows "rule_sub t (old_text t s0 occs) = new_text t s0 occs
       \<and> fix_text (old_text t s0 occs) = new_text t s0 occs"
proof -
  have "rule_sub t (old_text t s0 occs) = new_text t s0 occs"
    using hfreeD [OF assms(1)] occs_weaken [OF assms(2)] by (rule rule_sub_old_text)
  moreover have "fix_text (doc_text s0 (map (\<lambda>(g, s). (Old t g, s)) occs))
      = doc_text s0 (map_forms to_new (map (\<lambda>(g, s). (Old t g, s)) occs))"
    using doc_ok_occs [OF assms] by (rule fix_text_doc)
  then have "fix_text (old_text t s0 occs) = new_text t s0 occs"
    by (simp add: old_text_doc to_new_occs new_text_doc)
  ultimately show ?thesis by simp
qed

theorem all_occurrences_witness:
  \<open>hfree ''match e { ''
   \<and> list_all (\<lambda>(g, s). g \<noteq> [] \<and> stopc Validation \<notin> set g \<and> hfree g \<and> hfree s)
        [(''bad name'', '', ''), (''bad port'', '' }'')]
   \<and> old_text Validation ''match e { '' [(''bad name'', '', ''), (''bad port'', '' }'')]
       = ''match e { AppError::Validation("bad name"), AppError::Validation("bad port") }''
   \<and> rule_sub Validation (old_text Validation ''match e { '' [(''bad name'', '', ''), (''bad port'', '' }'')])
       = new_text Validation ''match e { '' [(''bad name'', '', ''), (''bad port'', '' }'')]
   \<and> fix_text (old_text Validation ''match e { '' [(''bad name'', '', ''), (''bad port'', '' }'')])
       = new_text Validation ''match e { '' [(''bad name'', '', ''), (''bad port'', '' }'')]
   \<and> new_text Validation ''match e { '' [(''bad name'', '', ''), (''bad port'', '' }'')]
       = ''match e { '' @ new_form Validation ''bad name'' @ '', '' @ new_form Validation ''bad port'' @ '' }''\<close>
proof -
  have a: "hfree ''match e { ''" by (simp add: hfree_no_A)
  have b: "list_all (\<lambda>(g, s). g \<noteq> [] \<and> stopc Validation \<notin> set g \<and> hfree g \<and> hfree s)
        [(''bad name'', '', ''), (''bad port'', '' }'')]"
    by (simp add: hfree_no_A stopc_def)
  have e1: \<open>old_text Validation ''match e { '' [(''bad name'', '', ''), (''bad port'', '' }'')]
       = ''match e { AppError::Validation("bad name"), AppError::Validation("bad port") }''\<close>
    by (simp add: old_text_def old_form_def opener_def closer_def)
  have e2: "new_text Validation ''match e { '' [(''bad name'', '', ''), (''bad port'', '' }'')]
       = ''match e { '' @ new_form Validation ''bad name'' @ '', '' @ new_form Validation ''bad port'' @ '' }''"
    by (simp add: new_text_def)
  show ?thesis
    using all_occurrences [OF a b] a b e1 e2 by blast
qed

section \<open>The \<open>ServerNotFound\<close> rule (claim C4)\<close>

text \<open>
  Claim C4: the fourth substitution replaces every occurrence of
  \<^verbatim>\<open>AppError::ServerNotFound(<expr>)\<close>, where \<open>expr\<close> is a non-empty run of
  characters other than a closing parenthesis, by the \<^verbatim>\<open>ServerError\<close> structure
  with \<open>expr\<close> copied unquoted into \<^verbatim>\<open>server_id\<close>. The text is the leading text
  \<open>s0\<close>, then each call with argument \<open>e\<close> followed by a text \<open>s\<close>; the texts
  around the calls hold no further head \<^verbatim>\<open>AppError::ServerNotFound(\<close>, so that the
  calls listed are all the occurrences. Nothing is asked of the text after a call:
  the capture ends at the first closing parenthesis, whatever follows. The last two
  conjuncts write the old and the new form out.
\<close>

theorem server_not_found_rule:
  assumes "\<not> sublist (head ServerNotFound) s0"
    "list_all (\<lambda>(e, s). e \<noteq> [] \<and> CHR 0x29 \<notin> set e \<and> \<not> sublist (head ServerNotFound) s) occs"
  shows \<open>rule_sub ServerNotFound (old_text ServerNotFound s0 occs) = new_text ServerNotFound s0 occs
       \<and> old_form ServerNotFound e = ''AppError::ServerNotFound('' @ e @ '')''
       \<and> new_form ServerNotFound e =
            ''AppError::ServerError {'' @ [CHR 0x0A] @
            ''                message: "Server not found".to_string(),'' @ [CHR 0x0A] @
            ''                server_id: '' @ e @ '','' @ [CHR 0x0A] @
            ''                operation: "get".to_string(),'' @ [CHR 0x0A] @
            ''            }''\<close>
proof -
  have "list_all (\<lambda>(g, s). g \<noteq> [] \<and> stopc ServerNotFound \<notin> set g \<and> \<not> sublist (head ServerNotFound) s) occs"
    using assms(2) by (simp add: stopc_def)
  with assms(1) have "rule_sub ServerNotFound (old_text ServerNotFound s0 occs) = new_text ServerNotFound s0 occs"
    by (rule rule_sub_old_text)
  then show ?thesis
    by (simp add: old_form_def opener_def closer_def new_form_def)
qed

theorem server_not_found_rule_witness:
  \<open>\<not> sublist (head ServerNotFound) ''return Err(''
   \<and> list_all (\<lambda>(e, s). e \<noteq> [] \<and> CHR 0x29 \<notin> set e \<and> \<not> sublist (head ServerNotFound) s)
        [(''id'', ''); f(AppError::Internal("x")); ''), (''lookup(key'', '');'')]
   \<and> old_text ServerNotFound ''return Err('' [(''id'', ''); f(AppError::Internal("x")); ''), (''lookup(key'', '');'')]
       = ''return Err(AppError::ServerNotFound(id)); f(AppError::Internal("x")); AppError::ServerNotFound(lookup(key));''
   \<and> rule_sub ServerNotFound
         (old_text ServerNotFound ''return Err('' [(''id'', ''); f(AppError::Internal("x")); ''), (''lookup(key'', '');'')])
       = new_text ServerNotFound ''return Err('' [(''id'', ''); f(AppError::Internal("x")); ''), (''lookup(key'', '');'')]
   \<and> new_text ServerNotFound ''return Err('' [(''id'', ''); f(AppError::Internal("x")); ''), (''lookup(key'', '');'')]
       = ''return Err('' @ new_form ServerNotFound ''id'' @ ''); f(AppError::Internal("x")); ''
           @ new_form ServerNotFound ''lookup(key'' @ '');''
   \<and> new_form ServerNotFound ''id'' =
            ''AppError::ServerError {'' @ [CHR 0x0A] @
            ''                message: "Server not found".to_string(),'' @ [CHR 0x0A] @
            ''                server_id: id,'' @ [CHR 0x0A] @
            ''                operation: "get".to_string(),'' @ [CHR 0x0A] @
            ''            }''\<close>
proof -
  have a: "\<not> sublist (head ServerNotFound) ''return Err(''"
    by (simp add: sublist_Cons_right)
  have b: \<open>list_all (\<lambda>(e, s). e \<noteq> [] \<and> CHR 0x29 \<notin> set e \<and> \<not> sublist (head ServerNotFound) s)
        [(''id'', ''); f(AppError::Internal("x")); ''), (''lookup(key'', '');'')]\<close>
    by (simp add: sublist_Cons_right)
  have e1: \<open>old_text ServerNotFound ''return Err('' [(''id'', ''); f(AppError::Internal("x")); ''), (''lookup(key'', '');'')]
       = ''return Err(AppError::ServerNotFound(id)); f(AppError::Internal("x")); AppError::ServerNotFound(lookup(key));''\<close>
    by (simp add: old_text_def old_form_def opener_def closer_def)
  have e2: \<open>new_text ServerNotFound ''return Err('' [(''id'', ''); f(AppError::Internal("x")); ''), (''lookup(key'', '');'')]
       = ''return Err('' @ new_form ServerNotFound ''id'' @ ''); f(AppError::Internal("x")); ''
           @ new_form ServerNotFound ''lookup(key'' @ '');''\<close>
    by (simp add: new_text_def)
  note th = server_not_found_rule [OF a b, of "''id''"]
  have e3: \<open>new_form ServerNotFound ''id'' =
            ''AppError::ServerError {'' @ [CHR 0x0A] @
            ''                message: "Server not found".to_string(),'' @ [CHR 0x0A] @
            ''                server_id: id,'' @ [CHR 0x0A] @
            ''                operation: "get".to_string(),'' @ [CHR 0x0A] @
            ''            }''\<close>
    using th by simp
  show ?thesis
    using th a b e1 e2 e3 by blast
qed

section \<open>Texts without an old form (claim C6)\<close>

lemma rule_sub_no_match:
  "(\<And>k. k < length s \<Longrightarrow> re_match (pattern t) (drop k s) [] = None) \<Longrightarrow> rule_sub t s = s"
proof (induction s)
  case Nil
  then show ?case by (simp add: rule_sub_Nil)
next
  case (Cons c s)
  have "re_match (pattern t) (c # s) [] = None" using Cons.prems [of 0] by simp
  moreover have "rule_sub t s = s"
  proof (rule Cons.IH)
    fix k assume "k < length s"
    then show "re_match (pattern t) (drop k s) [] = None" using Cons.prems [of "Suc k"] by simp
  qed
  ultimately show ?case by (simp add: rule_sub_skip)
qed

lemma no_old_form_rule: "\<not> has_old_form s \<Longrightarrow> rule_sub t s = s"
proof (rule rule_sub_no_match)
  fix k assume a: "\<not> has_old_form s" and k: "k < length s"
  show "re_match (pattern t) (drop k s) [] = None"
  proof (rule ccontr)
    assume "re_match (pattern t) (drop k s) [] \<noteq> None"
    moreover have "k \<in> set [0 ..< length s]" using k by simp
    ultimately have "has_old_form s"
      unfolding has_old_form_def list_ex_iff using all_tags_complete [of t] by blast
    with a show False by simp
  qed
qed

lemma no_opener_no_old_form:
  assumes "list_all (\<lambda>t. \<not> sublist (opener t) s) all_tags"
  shows "\<not> has_old_form s"
proof
  assume "has_old_form s"
  then obtain t k where m: "re_match (pattern t) (drop k s) [] \<noteq> None"
    by (auto simp: has_old_form_def list_ex_iff)
  then have "prefix (opener t) (drop k s)"
    by (auto simp: match_rule split: if_splits)
  then have "sublist (opener t) s" by (rule prefix_drop_sublist)
  with assms all_tags_complete [of t] show False by (auto simp: list_all_iff)
qed

text \<open>
  Claim C6: a text in which no rule matches at any position comes back from the
  transform unchanged, character for character. No substitution can fail: the model
  of \<^verbatim>\<open>re.sub\<close> is a total function to texts and has no error result, a rule
  without a match returns its input.
\<close>

theorem no_old_form_unchanged:
  assumes "\<not> has_old_form s"
  shows "fix_text s = s \<and> list_all (\<lambda>t. rule_sub t s = s) all_tags"
  using assms by (simp add: fix_text_def no_old_form_rule all_tags_def)

theorem no_old_form_unchanged_witness:
  \<open>\<not> has_old_form ''Err(AppError::Internal(e)) // AppError::Database("x")''
   \<and> fix_text ''Err(AppError::Internal(e)) // AppError::Database("x")''
       = ''Err(AppError::Internal(e)) // AppError::Database("x")''\<close>
proof -
  have a: \<open>\<not> has_old_form ''Err(AppError::Internal(e)) // AppError::Database("x")''\<close>
    by (rule no_opener_no_old_form) (simp add: all_tags_def opener_def sublist_Cons_right)
  show ?thesis
    using no_old_form_unchanged [OF a] a by blast
qed

section \<open>String calls the rules do not match (claims C7 and C9)\<close>












section \<open>A quoted argument of \<open>ServerNotFound\<close> (claim C10)\<close>




section \<open>The driver (claim C8)\<close>

lemma fix_file_missing: "fs p = None \<Longrightarrow> fix_file p fs = fs"
  by (simp add: fix_file_def)

lemma notice_fix_file: "notice (fix_file p fs) q = notice fs q"
  by (auto simp: notice_def fix_file_def split: option.splits node.splits)

lemma usable_fix_file: "usable fs q \<Longrightarrow> usable (fix_file p fs) q"
  by (auto simp: usable_def fix_file_def split: option.splits node.splits)

lemma main_loop_usable:
  "list_all (usable (files w)) paths \<Longrightarrow>
   main_loop paths w =
     Inr (w\<lparr>files := fold fix_file paths (files w),
             stdout := stdout w @ map (notice (files w)) paths\<rparr>)"
proof (induction paths arbitrary: w)
  case Nil
  then show ?case by simp
next
  case (Cons p paths)
  from Cons.prems have up: "usable (files w) p" and rest: "list_all (usable (files w)) paths"
    by simp_all
  show ?case
  proof (cases "files w p")
    case None
    let ?w = "print (''File not found: '' @ p) w"
    have f: "files ?w = files w" by (simp add: print_def)
    have "main_loop (p # paths) w = main_loop paths ?w"
      using None by (simp add: path_exists_def)
    also have "\<dots> = Inr (?w\<lparr>files := fold fix_file paths (files ?w),
             stdout := stdout ?w @ map (notice (files ?w)) paths\<rparr>)"
      using rest by (intro Cons.IH) (simp add: print_def)
    finally show ?thesis
      using None by (simp add: print_def notice_def fix_file_missing)
  next
    case (Some n)
    with up obtain content where n: "n = Regular content"
      by (cases n) (auto simp: usable_def)
    let ?w = "(print (''Fixing '' @ p @ ''...'') w)\<lparr>files := fix_file p (files w)\<rparr>"
    have step: "fix_app_error_usage p (print (''Fixing '' @ p @ ''...'') w) = Inr ?w"
      using Some n by (simp add: fix_app_error_usage_def print_def fix_file_def)
    have f: "files ?w = fix_file p (files w)" by simp
    have ok: "list_all (usable (files ?w)) paths"
      using rest by (simp add: list_all_iff usable_fix_file)
    have "main_loop (p # paths) w = main_loop paths ?w"
      using Some step by (simp add: path_exists_def)
    also have "\<dots> = Inr (?w\<lparr>files := fold fix_file paths (files ?w),
             stdout := stdout ?w @ map (notice (files ?w)) paths\<rparr>)"
      using ok by (rule Cons.IH)
    finally show ?thesis
      using Some by (simp add: print_def notice_def notice_fix_file [abs_def] cong: map_cong)
  qed
qed

lemma fold_fix_file_missing:
  "list_all (\<lambda>p. fs p = None) paths \<Longrightarrow> fold fix_file paths fs = fs"
  by (induction paths) (simp_all add: fix_file_missing)

lemma missing_usable: "list_all (\<lambda>p. fs p = None) paths \<Longrightarrow> list_all (usable fs) paths"
  by (induction paths) (simp_all add: usable_def)

text \<open>
  Claim C8: the driver goes through the paths in their order. For a path that does
  not exist it prints exactly \<^verbatim>\<open>File not found: <path>\<close> and goes on; for a path
  that exists it prints exactly \<^verbatim>\<open>Fixing <path>...\<close> and reads, transforms and
  writes the file. When every listed path names nothing or a regular file, the run
  ends without an exception (\<open>Inr\<close>), the lines printed are the notices of the paths
  in their order and the files are those after fixing each existing path in turn; in
  particular, when every path is missing the run still ends without an exception,
  having printed one \<^verbatim>\<open>File not found\<close> line per path and changed no file. The
  script's \<open>main\<close> is this loop on its four paths.
\<close>

theorem driver_run:
  assumes "list_all (usable (files w)) paths"
  shows "main_loop paths w =
           Inr (w\<lparr>files := fold fix_file paths (files w),
                   stdout := stdout w @ map (notice (files w)) paths\<rparr>)
       \<and> (list_all (\<lambda>p. files w p = None) paths \<longrightarrow>
            main_loop paths w = Inr (w\<lparr>stdout := stdout w @ map (\<lambda>p. ''File not found: '' @ p) paths\<rparr>))
       \<and> (list_all (usable (files w)) files_to_fix \<longrightarrow>
            main w = Inr (w\<lparr>files := fold fix_file files_to_fix (files w),
                              stdout := stdout w @ map (notice (files w)) files_to_fix\<rparr>))"
proof -
  have 1: "main_loop paths w =
           Inr (w\<lparr>files := fold fix_file paths (files w),
                   stdout := stdout w @ map (notice (files w)) paths\<rparr>)"
    using assms by (rule main_loop_usable)
  have 2: "main_loop paths w = Inr (w\<lparr>stdout := stdout w @ map (\<lambda>p. ''File not found: '' @ p) paths\<rparr>)"
    if m: "list_all (\<lambda>p. files w p = None) paths"
  proof -
    have "map (notice (files w)) paths = map (\<lambda>p. ''File not found: '' @ p) paths"
      using m by (induction paths) (simp_all add: notice_def)
    then show ?thesis
      using 1 fold_fix_file_missing [OF m] by simp
  qed
  have 3: "main w = Inr (w\<lparr>files := fold fix_file files_to_fix (files w),
                              stdout := stdout w @ map (notice (files w)) files_to_fix\<rparr>)"
    if "list_all (usable (files w)) files_to_fix"
    unfolding main_def using that by (rule main_loop_usable)
  show ?thesis using 1 2 3 by blast
qed

theorem driver_run_witness:
  \<open>list_all (usable (files \<lparr>files = (\<lambda>p. None)(''a.rs'' \<mapsto> Regular ''AppError::Internal("boom")''), stdout = []\<rparr>)) [''missing.rs'', ''a.rs'']
   \<and> main_loop [''missing.rs'', ''a.rs''] \<lparr>files = (\<lambda>p. None)(''a.rs'' \<mapsto> Regular ''AppError::Internal("boom")''), stdout = []\<rparr> =
       Inr (\<lparr>files = (\<lambda>p. None)(''a.rs'' \<mapsto> Regular ''AppError::Internal("boom")''), stdout = []\<rparr>\<lparr>files := fold fix_file [''missing.rs'', ''a.rs''] (files \<lparr>files = (\<lambda>p. None)(''a.rs'' \<mapsto> Regular ''AppError::Internal("boom")''), stdout = []\<rparr>),
               stdout := stdout \<lparr>files = (\<lambda>p. None)(''a.rs'' \<mapsto> Regular ''AppError::Internal("boom")''), stdout = []\<rparr> @ map (notice (files \<lparr>files = (\<lambda>p. None)(''a.rs'' \<mapsto> Regular ''AppError::Internal("boom")''), stdout = []\<rparr>)) [''missing.rs'', ''a.rs'']\<rparr>)
   \<and> stdout \<lparr>files = (\<lambda>p. None)(''a.rs'' \<mapsto> Regular ''AppError::Internal("boom")''), stdout = []\<rparr> @ map (notice (files \<lparr>files = (\<lambda>p. None)(''a.rs'' \<mapsto> Regular ''AppError::Internal("boom")''), stdout = []\<rparr>)) [''missing.rs'', ''a.rs''] = [''File not found: missing.rs'', ''Fixing a.rs...'']
   \<and> fold fix_file [''missing.rs'', ''a.rs''] (files \<lparr>files = (\<lambda>p. None)(''a.rs'' \<mapsto> Regular ''AppError::Internal("boom")''), stdout = []\<rparr>) ''a.rs'' = Some (Regular (fix_text ''AppError::Internal("boom")''))
   \<and> list_all (\<lambda>p. files \<lparr>files = (\<lambda>p. None), stdout = []\<rparr> p = None) [''missing.rs'', ''a.rs'']
   \<and> main_loop [''missing.rs'', ''a.rs''] \<lparr>files = (\<lambda>p. None), stdout = []\<rparr> = Inr (\<lparr>files = (\<lambda>p. None), stdout = []\<rparr>\<lparr>stdout := stdout \<lparr>files = (\<lambda>p. None), stdout = []\<rparr> @ map (\<lambda>p. ''File not found: '' @ p) [''missing.rs'', ''a.rs'']\<rparr>)
   \<and> list_all (usable (files \<lparr>files = (\<lambda>p. None), stdout = []\<rparr>)) files_to_fix
   \<and> main \<lparr>files = (\<lambda>p. None), stdout = []\<rparr> = Inr (\<lparr>files = (\<lambda>p. None), stdout = []\<rparr>\<lparr>files := fold fix_file files_to_fix (files \<lparr>files = (\<lambda>p. None), stdout = []\<rparr>),
                        stdout := stdout \<lparr>files = (\<lambda>p. None), stdout = []\<rparr> @ map (notice (files \<lparr>files = (\<lambda>p. None), stdout = []\<rparr>)) files_to_fix\<rparr>)\<close>
proof -
  have u0: \<open>list_all (usable (files \<lparr>files = (\<lambda>p. None)(''a.rs'' \<mapsto> Regular ''AppError::Internal("boom")''), stdout = []\<rparr>)) [''missing.rs'', ''a.rs'']\<close>
    by (simp add: usable_def)
  have out0: \<open>stdout \<lparr>files = (\<lambda>p. None)(''a.rs'' \<mapsto> Regular ''AppError::Internal("boom")''), stdout = []\<rparr> @ map (notice (files \<lparr>files = (\<lambda>p. None)(''a.rs'' \<mapsto> Regular ''AppError::Internal("boom")''), stdout = []\<rparr>)) [''missing.rs'', ''a.rs''] = [''File not found: missing.rs'', ''Fixing a.rs...'']\<close>
    by (simp add: notice_def)
  have f0: \<open>fold fix_file [''missing.rs'', ''a.rs''] (files \<lparr>files = (\<lambda>p. None)(''a.rs'' \<mapsto> Regular ''AppError::Internal("boom")''), stdout = []\<rparr>) ''a.rs'' = Some (Regular (fix_text ''AppError::Internal("boom")''))\<close>
    by (simp add: fix_file_def)
  have m1: \<open>list_all (\<lambda>p. files \<lparr>files = (\<lambda>p. None), stdout = []\<rparr> p = None) [''missing.rs'', ''a.rs'']\<close>
    by simp
  have u1: \<open>list_all (usable (files \<lparr>files = (\<lambda>p. None), stdout = []\<rparr>)) [''missing.rs'', ''a.rs'']\<close>
    by (simp add: usable_def)
  have u2: \<open>list_all (usable (files \<lparr>files = (\<lambda>p. None), stdout = []\<rparr>)) files_to_fix\<close>
    by (simp add: usable_def files_to_fix_def)
  show ?thesis
    using driver_run [OF u0] driver_run [OF u1] u0 out0 f0 m1 u2 by blast
qed

end
